theory Spec2Isabelle
  imports Main
begin

chapter \<open>The form-mirroring notification bot (bot.js), embedded in HOL\<close>

text \<open>
  The bot keeps the pages of a remote form in a local cache, lets every Discord guild choose
  pages, roles and a channel, and posts a page to a guild when its cached text differs from
  the text last posted there. The repository holds two versions of \<^verbatim>\<open>bot.js\<close>: one that
  keeps its cache and its two registries in files, and a later one that keeps them in
  MongoDB and adds the wall-clock scheduler. Both are modelled; where they differ the
  model branches on the \<open>backend\<close>.

  Conventions of the embedding.
  \<^item> A JavaScript string is a \<open>string\<close>; \<open>length\<close> counts its code units. The model of
    \<^verbatim>\<open>toLowerCase\<close> covers the code units below 256: for those the lower-case form of a
    character outside \<^verbatim>\<open>A-Z\<close> is never in \<^verbatim>\<open>[a-z0-9]\<close>.
  \<^item> A \<^verbatim>\<open>Set\<close> is the list of its elements in insertion order; a plain object used as a
    dictionary is a map, or an association list where \<^verbatim>\<open>Object.entries\<close> walks it.
  \<^item> An \<^verbatim>\<open>async\<close> function that mutates the bot's variables and may reject is a function
    from a state to \<open>error option \<times> state\<close>: \<open>None\<close> is normal completion, \<open>Some e\<close> a
    rejection, and the state is the one reached when the function stopped.
  \<^item> Whether a call to the outside (a send, a fetch, a write) fails is read from the
    \<open>world\<close>; the colour and timestamp of an embed are not modelled.
\<close>

section \<open>Strings\<close>

text \<open>\<^verbatim>\<open>s.slice(a, b)\<close>: a negative index counts from the end, both are clamped to the
  string, and the result is empty when the start is not before the end.\<close>

definition js_slice :: "'a list \<Rightarrow> int \<Rightarrow> int \<Rightarrow> 'a list" where
  "js_slice s a b =
     (let n = int (length s);
          from = (if a < 0 then max (n + a) 0 else min a n);
          to = (if b < 0 then max (n + b) 0 else min b n)
      in drop (nat from) (take (nat to) s))"

definition toLowerCase_char :: "char \<Rightarrow> char" where
  "toLowerCase_char c =
     (let n = (of_char c :: nat) in if 65 \<le> n \<and> n \<le> 90 then char_of (n + 32) else c)"

definition toLowerCase :: "string \<Rightarrow> string" where
  "toLowerCase s = map toLowerCase_char s"

text \<open>The character class \<^verbatim>\<open>[a-z0-9]\<close>, its complement \<^verbatim>\<open>[^a-z0-9]\<close>, and \<^verbatim>\<open>_\<close>.\<close>

definition is_a_z0_9 :: "char \<Rightarrow> bool" where
  "is_a_z0_9 c =
     (let n = (of_char c :: nat) in (97 \<le> n \<and> n \<le> 122) \<or> (48 \<le> n \<and> n \<le> 57))"

definition not_a_z0_9 :: "char \<Rightarrow> bool" where
  "not_a_z0_9 c = (\<not> is_a_z0_9 c)"

definition is_underscore :: "char \<Rightarrow> bool" where
  "is_underscore c = (c = CHR ''_'')"

text \<open>\<^verbatim>\<open>s.replace(/[class]+/g, '_')\<close>: every maximal run of characters of the class becomes
  one underscore.\<close>

function replace_runs :: "(char \<Rightarrow> bool) \<Rightarrow> string \<Rightarrow> string" where
  "replace_runs P [] = []"
| "replace_runs P (c # cs) =
     (if P c then CHR ''_'' # replace_runs P (dropWhile P cs) else c # replace_runs P cs)"
  by pat_completeness auto
termination
  by (relation "measure (\<lambda>(P, s). length s)") (auto simp: length_dropWhile_le less_Suc_eq_le)

text \<open>\<^verbatim>\<open>s.replace(/^_+|_+$/g, '')\<close>: the leading and the trailing run of underscores go.\<close>

definition strip_underscores :: "string \<Rightarrow> string" where
  "strip_underscores s = rev (dropWhile is_underscore (rev (dropWhile is_underscore s)))"

text \<open>\<^verbatim>\<open>normalizeDropdownName\<close> of the file-backed \<^verbatim>\<open>bot.js\<close>, replacement by replacement.\<close>

definition normalizeDropdownName :: "string \<Rightarrow> string" where
  "normalizeDropdownName name =
     js_slice (replace_runs is_underscore (strip_underscores
        (replace_runs not_a_z0_9 (toLowerCase name)))) 0 32"

text \<open>The normalisation as the specification words it: lower-case the label, collapse
  every run of non-alphanumeric characters to one underscore (a scan that remembers whether
  it is inside a run), strip the underscores at both ends, keep at most 32 characters.\<close>

fun collapse_spec :: "bool \<Rightarrow> string \<Rightarrow> string" where
  "collapse_spec in_run [] = []"
| "collapse_spec in_run (c # cs) =
     (if is_a_z0_9 c then c # collapse_spec False cs
      else if in_run then collapse_spec True cs
      else CHR ''_'' # collapse_spec True cs)"

definition strip_spec :: "string \<Rightarrow> string" where
  "strip_spec s =
     foldr (\<lambda>c acc. if c = CHR ''_'' \<and> acc = [] then [] else c # acc)
       (dropWhile (\<lambda>c. c = CHR ''_'') s) []"

definition normalize_spec :: "string \<Rightarrow> string" where
  "normalize_spec label = take 32 (strip_spec (collapse_spec False (toLowerCase label)))"

text \<open>A string in which no two underscores are adjacent.\<close>

fun no_double :: "string \<Rightarrow> bool" where
  "no_double [] = True"
| "no_double [c] = True"
| "no_double (a # b # cs) = (\<not> (a = CHR ''_'' \<and> b = CHR ''_'') \<and> no_double (b # cs))"

section \<open>Chunking a page into messages\<close>

text \<open>
  \<^verbatim>\<open>const chunks = [];
  for (let i = 0; i < content.length; i += 1900) chunks.push(content.slice(i, i + 1900));\<close>
\<close>

function chunk_loop :: "string \<Rightarrow> nat \<Rightarrow> string list \<Rightarrow> string list" where
  "chunk_loop content i chunks =
     (if i < length content
      then chunk_loop content (i + 1900) (chunks @ [js_slice content (int i) (int i + 1900)])
      else chunks)"
  by pat_completeness auto
termination
  by (relation "measure (\<lambda>(content, i, chunks). length content - i)") auto

declare chunk_loop.simps [simp del]

definition chunks_of :: "string \<Rightarrow> string list" where
  "chunks_of content = chunk_loop content 0 []"

text \<open>A message as \<^verbatim>\<open>channel.send\<close> gets it: the text outside the embed (the role
  mentions, or nothing), and the embed's title and description.\<close>

record message =
  msg_content :: "string option"
  msg_title :: "string option"
  msg_description :: string

text \<open>The messages one update consists of, in the order the code sends them: the
  placeholder when there is no chunk, else the first chunk with title and mentions and
  every further chunk bare. \<^verbatim>\<open>roleMentions || undefined\<close> drops an empty mention string.\<close>

definition update_messages :: "string \<Rightarrow> string \<Rightarrow> string \<Rightarrow> message list" where
  "update_messages roleMentions pageName content =
     (let mention = (if roleMentions = [] then None else Some roleMentions) in
      case chunks_of content of
        [] \<Rightarrow> [\<lparr>msg_content = mention, msg_title = Some (''Update: '' @ pageName),
                msg_description = ''No content found.''\<rparr>]
      | c0 # rest \<Rightarrow>
          \<lparr>msg_content = mention, msg_title = Some (''Update: '' @ pageName),
            msg_description = c0\<rparr>
          # map (\<lambda>c. \<lparr>msg_content = None, msg_title = None, msg_description = c\<rparr>) rest)"

section \<open>The notification window\<close>

text \<open>
  \<^verbatim>\<open>let allowed = false; let t = 15 * 60 + 33;
  while (t <= 22 * 60) { if (nowMinutes === t) { allowed = true; break; } t += 30; }\<close>
\<close>

function allowed_loop :: "nat \<Rightarrow> nat \<Rightarrow> bool" where
  "allowed_loop nowMinutes t =
     (if t \<le> 22 * 60
      then (if nowMinutes = t then True else allowed_loop nowMinutes (t + 30))
      else False)"
  by pat_completeness auto
termination
  by (relation "measure (\<lambda>(nowMinutes, t). 22 * 60 + 1 - t)") auto

declare allowed_loop.simps [simp del]

definition allowed_at :: "nat \<Rightarrow> nat \<Rightarrow> bool" where
  "allowed_at hour minute = allowed_loop (hour * 60 + minute) (15 * 60 + 33)"

section \<open>The bot's data\<close>

type_synonym guildId = string
type_synonym pageName = string
type_synonym channelId = string
type_synonym roleId = string

datatype error = FetchError | CacheError | DeliveryError | StoreError | ReplyError

datatype backend = FileStore | MongoStore

text \<open>\<^verbatim>\<open>{ pages: Set<string>, roles: { [page]: Set<roleId> }, channel: channelId }\<close>;
  a \<^verbatim>\<open>null\<close> or undefined channel is \<open>None\<close>.\<close>

record settings =
  pages :: "pageName list"
  roles :: "pageName \<rightharpoonup> roleId list"
  channel :: "channelId option"

text \<open>
  What the bot does not control. \<open>guilds_cache\<close> is \<^verbatim>\<open>client.guilds.cache\<close>, each guild
  with its \<^verbatim>\<open>channels.cache\<close> giving a channel's type (0 is a text channel).
  \<open>send_fails n\<close> tells whether the \<open>n\<close>-th \<^verbatim>\<open>channel.send\<close> of the process rejects,
  \<open>ledger_save_fails n\<close> whether the \<open>n\<close>-th write of the last-sent registry fails; the
  other fields tell the same for a read or write of one cache entry, the fetch of one page,
  the write of the settings and the reply to an interaction.
\<close>

record world =
  backend :: backend
  guilds_cache :: "guildId \<rightharpoonup> (channelId \<rightharpoonup> nat)"
  send_fails :: "nat \<Rightarrow> bool"
  ledger_save_fails :: "nat \<Rightarrow> bool"
  cache_read_fails :: "string \<Rightarrow> bool"
  cache_write_fails :: "string \<Rightarrow> bool"
  getContentForDropdownItem :: "string \<Rightarrow> error + string"
  settings_write_fails :: bool
  reply_fails :: bool

text \<open>The lines the notification code writes to the console.\<close>

datatype log_entry =
    NotifySent pageName guildId channelId
  | NotifyCacheError pageName guildId
  | SchedulerRunning nat nat

text \<open>The state the notification job works on: \<^verbatim>\<open>lastSentContent\<close>
  (\<^verbatim>\<open>{ [guildId]: { [pageName]: lastContentString } }\<close>), the messages the channels have
  accepted, the console, and how many sends and registry writes have been attempted.\<close>

record notifier =
  lastSentContent :: "guildId \<rightharpoonup> (pageName \<rightharpoonup> string)"
  outbox :: "(guildId \<times> channelId \<times> message) list"
  console :: "log_entry list"
  sends :: nat
  saves :: nat

section \<open>Sequential loops over awaited steps\<close>

text \<open>\<^verbatim>\<open>for (const x of xs) { await body(x); }\<close> with no \<^verbatim>\<open>try\<close> around the body: the
  first rejection leaves the loop, and the function, with the state reached so far.\<close>

fun for_each :: "('a \<Rightarrow> 's \<Rightarrow> error option \<times> 's) \<Rightarrow> 'a list \<Rightarrow> 's \<Rightarrow> error option \<times> 's" where
  "for_each body [] s = (None, s)"
| "for_each body (x # xs) s =
     (case body x s of
        (Some e, s') \<Rightarrow> (Some e, s')
      | (None, s') \<Rightarrow> for_each body xs s')"

section \<open>The content cache\<close>

text \<open>
  The cache maps a key to the text of a page. The file-backed bot keeps
  \<^verbatim>\<open>cache/<normalizeDropdownName(item)>.txt\<close>, the MongoDB one a document per item.
\<close>

type_synonym cache = "string \<rightharpoonup> string"

definition cache_key :: "backend \<Rightarrow> string \<Rightarrow> string" where
  "cache_key b item =
     (case b of FileStore \<Rightarrow> normalizeDropdownName item @ ''.txt'' | MongoStore \<Rightarrow> item)"

text \<open>
  File-backed: \<^verbatim>\<open>try { return await fs.readFile(file, 'utf8'); } catch { return ''; }\<close>.
  MongoDB: \<^verbatim>\<open>const doc = await dropdownCacheCol.findOne({ item }); return doc?.content || '';\<close>,
  which rejects when the query does.
\<close>

definition readDropdownCache :: "world \<Rightarrow> cache \<Rightarrow> string \<Rightarrow> error + string" where
  "readDropdownCache w c item =
     (case backend w of
        FileStore \<Rightarrow>
          (if cache_read_fails w item then Inr []
           else case c (cache_key FileStore item) of None \<Rightarrow> Inr [] | Some text \<Rightarrow> Inr text)
      | MongoStore \<Rightarrow>
          (if cache_read_fails w item then Inl CacheError
           else case c (cache_key MongoStore item) of None \<Rightarrow> Inr [] | Some text \<Rightarrow> Inr text))"

definition writeDropdownCache :: "world \<Rightarrow> string \<Rightarrow> string \<Rightarrow> cache \<Rightarrow> error + cache" where
  "writeDropdownCache w item content c =
     (if cache_write_fails w item then Inl CacheError
      else Inr (c(cache_key (backend w) item \<mapsto> content)))"

text \<open>
  \<^verbatim>\<open>for (const item of dropdownItems) {
    try { const content = await getContentForDropdownItem(page, item);
          await writeDropdownCache(item, content); } catch {} }\<close>
  The function returns nothing and writes no line to the console.
\<close>

definition refresh_item :: "world \<Rightarrow> string \<Rightarrow> cache \<Rightarrow> cache" where
  "refresh_item w item c =
     (case getContentForDropdownItem w item of
        Inl e \<Rightarrow> c
      | Inr content \<Rightarrow>
          (case writeDropdownCache w item content c of Inl e \<Rightarrow> c | Inr c' \<Rightarrow> c'))"

definition updateAllDropdownCache :: "world \<Rightarrow> string list \<Rightarrow> cache \<Rightarrow> cache" where
  "updateAllDropdownCache w dropdownItems c = fold (refresh_item w) dropdownItems c"

section \<open>The notification job\<close>

definition channel_send ::
  "world \<Rightarrow> guildId \<Rightarrow> channelId \<Rightarrow> message \<Rightarrow> notifier \<Rightarrow> error option \<times> notifier" where
  "channel_send w g ch m s =
     (if send_fails w (sends s)
      then (Some DeliveryError, s\<lparr>sends := Suc (sends s)\<rparr>)
      else (None, s\<lparr>sends := Suc (sends s), outbox := outbox s @ [(g, ch, m)]\<rparr>))"

text \<open>\<^verbatim>\<open>roleIds.map(id => `<@&${id}>`).join(' ')\<close> over the roles chosen for the page.\<close>

fun join_space :: "string list \<Rightarrow> string" where
  "join_space [] = []"
| "join_space [x] = x"
| "join_space (x # y # ys) = x @ '' '' @ join_space (y # ys)"

definition roleMentions :: "settings \<Rightarrow> pageName \<Rightarrow> string" where
  "roleMentions st pageName =
     join_space (map (\<lambda>r. ''<@&'' @ r @ ''>'')
       (case roles st pageName of None \<Rightarrow> [] | Some rs \<Rightarrow> rs))"

text \<open>\<^verbatim>\<open>lastSentContent[guildId][pageName]\<close>, read and written. The job creates the
  guild's object before it reads; a missing snapshot reads as undefined.\<close>

definition ledger_get :: "(guildId \<rightharpoonup> (pageName \<rightharpoonup> string)) \<Rightarrow> guildId \<Rightarrow> pageName \<Rightarrow> string option" where
  "ledger_get l g p = (case l g of None \<Rightarrow> None | Some snapshots \<Rightarrow> snapshots p)"

definition ledger_set ::
  "(guildId \<rightharpoonup> (pageName \<rightharpoonup> string)) \<Rightarrow> guildId \<Rightarrow> pageName \<Rightarrow> string
     \<Rightarrow> (guildId \<rightharpoonup> (pageName \<rightharpoonup> string))" where
  "ledger_set l g p content =
     l(g \<mapsto> (case l g of None \<Rightarrow> Map.empty | Some snapshots \<Rightarrow> snapshots)(p \<mapsto> content))"

text \<open>\<^verbatim>\<open>saveLastSentContent\<close>: the file-backed bot swallows a failed write, the MongoDB
  one lets it reject. What reaches the store is not modelled.\<close>

definition saveLastSentContent :: "world \<Rightarrow> notifier \<Rightarrow> error option \<times> notifier" where
  "saveLastSentContent w s =
     (if ledger_save_fails w (saves s) \<and> backend w = MongoStore
      then (Some StoreError, s\<lparr>saves := Suc (saves s)\<rparr>)
      else (None, s\<lparr>saves := Suc (saves s)\<rparr>))"

text \<open>The body of the loop over a guild's pages. A cache read that rejects is logged and
  the page skipped (\<^verbatim>\<open>continue\<close>); nothing catches a send or a registry write.\<close>

definition notify_page ::
  "world \<Rightarrow> cache \<Rightarrow> guildId \<Rightarrow> settings \<Rightarrow> channelId \<Rightarrow> pageName \<Rightarrow> notifier
     \<Rightarrow> error option \<times> notifier" where
  "notify_page w c g st ch pageName s =
     (case readDropdownCache w c pageName of
        Inl e \<Rightarrow> (None, s\<lparr>console := console s @ [NotifyCacheError pageName g]\<rparr>)
      | Inr content \<Rightarrow>
          if content \<noteq> [] \<and> ledger_get (lastSentContent s) g pageName \<noteq> Some content
          then
            (case for_each (channel_send w g ch)
                    (update_messages (roleMentions st pageName) pageName content) s of
               (Some e, s1) \<Rightarrow> (Some e, s1)
             | (None, s1) \<Rightarrow>
                 (case saveLastSentContent w
                         (s1\<lparr>lastSentContent :=
                               ledger_set (lastSentContent s1) g pageName content\<rparr>) of
                    (Some e, s2) \<Rightarrow> (Some e, s2)
                  | (None, s2) \<Rightarrow>
                      (None, s2\<lparr>console := console s2 @ [NotifySent pageName g ch]\<rparr>)))
          else (None, s))"

text \<open>The channel a guild's updates go to, when the guild takes part in the pass: a
  channel is configured, a page is watched, the guild is in the client's cache and the
  channel is a text channel of the guild.\<close>

definition target_channel :: "world \<Rightarrow> guildId \<Rightarrow> settings \<Rightarrow> channelId option" where
  "target_channel w g st =
     (case channel st of
        None \<Rightarrow> None
      | Some ch \<Rightarrow>
          if ch = [] \<or> pages st = [] then None
          else (case guilds_cache w g of
                  None \<Rightarrow> None
                | Some channels \<Rightarrow>
                    (case channels ch of
                       None \<Rightarrow> None
                     | Some ty \<Rightarrow> if ty \<noteq> 0 then None else Some ch)))"

text \<open>The body of the loop over \<^verbatim>\<open>Object.entries(guildSettings)\<close>.\<close>

definition notify_guild ::
  "world \<Rightarrow> cache \<Rightarrow> guildId \<times> settings \<Rightarrow> notifier \<Rightarrow> error option \<times> notifier" where
  "notify_guild w c entry s =
     (case entry of (g, st) \<Rightarrow>
        (case target_channel w g st of
           None \<Rightarrow> (None, s)
         | Some ch \<Rightarrow>
             for_each (notify_page w c g st ch) (pages st)
               (if lastSentContent s g = None
                then s\<lparr>lastSentContent := (lastSentContent s)(g \<mapsto> Map.empty)\<rparr>
                else s)))"

definition runNotificationJob ::
  "world \<Rightarrow> cache \<Rightarrow> (guildId \<times> settings) list \<Rightarrow> notifier \<Rightarrow> error option \<times> notifier" where
  "runNotificationJob w c guildSettings s = for_each (notify_guild w c) guildSettings s"

text \<open>The number of updates for a page that a guild has received: the messages to the
  guild that carry the page's title.\<close>

definition deliveries :: "guildId \<Rightarrow> pageName \<Rightarrow> notifier \<Rightarrow> nat" where
  "deliveries g p s =
     length (filter (\<lambda>(g', ch, m). g' = g \<and> msg_title m = Some (''Update: '' @ p)) (outbox s))"

section \<open>The scheduler\<close>

text \<open>
  \<^verbatim>\<open>if (allowed && lastMinuteChecked !== nowMinutes) {
    console.log(...); await runNotificationJob(); lastMinuteChecked = nowMinutes; }
  setTimeout(notificationScheduler, ...);\<close>
  A rejection of the job leaves the function before the guard is set and before the
  timer is armed again.
\<close>

record scheduler =
  lastMinuteChecked :: "nat option"
  job_state :: notifier

definition notificationScheduler ::
  "world \<Rightarrow> cache \<Rightarrow> (guildId \<times> settings) list \<Rightarrow> nat \<Rightarrow> nat \<Rightarrow> scheduler
     \<Rightarrow> error option \<times> scheduler" where
  "notificationScheduler w c guildSettings hour minute sc =
     (let nowMinutes = hour * 60 + minute;
          allowed = allowed_loop nowMinutes (15 * 60 + 33)
      in if allowed \<and> lastMinuteChecked sc \<noteq> Some nowMinutes
         then
           (case runNotificationJob w c guildSettings
                   ((job_state sc)\<lparr>console :=
                       console (job_state sc) @ [SchedulerRunning hour minute]\<rparr>) of
              (Some e, s') \<Rightarrow> (Some e, sc\<lparr>job_state := s'\<rparr>)
            | (None, s') \<Rightarrow> (None, sc\<lparr>job_state := s', lastMinuteChecked := Some nowMinutes\<rparr>))
         else (None, sc))"

text \<open>One run of the check per timer tick. A tick carries what the check finds when it
  runs: the world, the cache, the settings and the Central Time hour and minute. The
  check arms the next tick only when it completes, so the ticks after a rejection never
  run.\<close>

record tick =
  tick_world :: world
  tick_cache :: cache
  tick_settings :: "(guildId \<times> settings) list"
  tick_hour :: nat
  tick_minute :: nat

definition scheduler_ticks :: "tick list \<Rightarrow> scheduler \<Rightarrow> error option \<times> scheduler" where
  "scheduler_ticks ticks sc =
     for_each (\<lambda>t. notificationScheduler (tick_world t) (tick_cache t) (tick_settings t)
                      (tick_hour t) (tick_minute t)) ticks sc"

text \<open>How often the job has been started: the scheduler's lines on the console.\<close>

definition scheduler_lines :: "notifier \<Rightarrow> nat" where
  "scheduler_lines s =
     length (filter (\<lambda>l. case l of SchedulerRunning h m \<Rightarrow> True | _ \<Rightarrow> False) (console s))"

definition job_runs :: "scheduler \<Rightarrow> nat" where
  "job_runs sc = scheduler_lines (job_state sc)"

section \<open>The settings of a guild\<close>

text \<open>
  The handler of the three select menus of \<^verbatim>\<open>/settings\<close>, as the file-backed \<^verbatim>\<open>bot.js\<close> has
  it. \<open>guildSettings\<close> is the object \<^verbatim>\<open>{ [guildId]: settings }\<close> in the order
  \<^verbatim>\<open>Object.entries\<close> walks it, \<open>settingsFile\<close> what \<^verbatim>\<open>guildSettings.json\<close> holds, \<open>replies\<close>
  the answers given to interactions, \<open>unhandled\<close> the errors the handler's outer
  \<^verbatim>\<open>catch\<close> has written to the console.
\<close>

record interaction =
  i_guildId :: guildId
  i_customId :: string
  i_values :: "string list"
  i_admin :: bool

record registry =
  guildSettings :: "(guildId \<times> settings) list"
  settingsFile :: "(guildId \<times> settings) list"
  replies :: "string list"
  unhandled :: "error list"

text \<open>\<^verbatim>\<open>obj[key] = value\<close>: a key the object has keeps its place, a new key goes last.
  (Guild ids are too long to be array indices, which an object would list first.)\<close>

fun object_set :: "(string \<times> 'v) list \<Rightarrow> string \<Rightarrow> 'v \<Rightarrow> (string \<times> 'v) list" where
  "object_set [] k v = [(k, v)]"
| "object_set ((k', v') # kvs) k v =
     (if k' = k then (k, v) # kvs else (k', v') # object_set kvs k v)"

text \<open>\<^verbatim>\<open>new Set(values)\<close>: the values in the order of their first occurrence.\<close>

definition new_Set :: "'a list \<Rightarrow> 'a list" where
  "new_Set xs = rev (remdups (rev xs))"

definition interaction_reply :: "world \<Rightarrow> string \<Rightarrow> registry \<Rightarrow> error option \<times> registry" where
  "interaction_reply w answer r =
     (if reply_fails w then (Some ReplyError, r)
      else (None, r\<lparr>replies := replies r @ [answer]\<rparr>))"

text \<open>
  \<^verbatim>\<open>try { await fs.writeFile(settingsFile, JSON.stringify(serializable, null, 2), 'utf8'); }
  catch (err) { /* silent fail */ }\<close>
  The serialised form lists every guild with its pages, its roles and its channel, which
  is the whole of \<open>guildSettings\<close>.
\<close>

definition saveSettings :: "world \<Rightarrow> registry \<Rightarrow> error option \<times> registry" where
  "saveSettings w r =
     (if settings_write_fails w then (None, r)
      else (None, r\<lparr>settingsFile := guildSettings r\<rparr>))"

text \<open>What a select menu changes in a guild's settings; each of the three menus has its
  answer, another component has none.\<close>

definition apply_selection :: "interaction \<Rightarrow> settings \<Rightarrow> settings" where
  "apply_selection i st =
     (if i_customId i = ''select_pages'' then st\<lparr>pages := new_Set (i_values i)\<rparr>
      else if i_customId i = ''select_roles''
        then st\<lparr>roles := fold (\<lambda>page m. m(page \<mapsto> new_Set (i_values i))) (pages st) (roles st)\<rparr>
      else if i_customId i = ''select_channel''
        then st\<lparr>channel := (case i_values i of [] \<Rightarrow> None | v # vs \<Rightarrow> Some v)\<rparr>
      else st)"

definition selection_answer :: "interaction \<Rightarrow> string option" where
  "selection_answer i =
     (if i_customId i = ''select_pages'' then Some ''Pages to monitor updated.''
      else if i_customId i = ''select_roles'' then Some ''Roles to ping updated.''
      else if i_customId i = ''select_channel'' then Some ''Channel for updates set.''
      else None)"

text \<open>
  The branch of the interaction handler for select menus. \<^verbatim>\<open>settings\<close> is the guild's own
  object when the guild has one, so the change is in \<open>guildSettings\<close> before the reply is
  awaited; a new guild's object is stored by \<^verbatim>\<open>guildSettings[interaction.guildId] = settings\<close>
  after it. Then \<^verbatim>\<open>await saveSettings()\<close>.
\<close>

definition select_menu :: "world \<Rightarrow> interaction \<Rightarrow> registry \<Rightarrow> error option \<times> registry" where
  "select_menu w i r =
     (if \<not> i_admin i
      then interaction_reply w ''Only a server administrator or owner can use /settings.'' r
      else
        let existing = map_of (guildSettings r) (i_guildId i);
            changed = apply_selection i
              (case existing of
                 Some st \<Rightarrow> st
               | None \<Rightarrow> \<lparr>pages = [], roles = Map.empty, channel = None\<rparr>);
            r1 = (case existing of
                    Some st \<Rightarrow> r\<lparr>guildSettings := object_set (guildSettings r) (i_guildId i) changed\<rparr>
                  | None \<Rightarrow> r)
        in case (case selection_answer i of
                   None \<Rightarrow> (None, r1)
                 | Some answer \<Rightarrow> interaction_reply w answer r1) of
             (Some e, r2) \<Rightarrow> (Some e, r2)
           | (None, r2) \<Rightarrow>
               saveSettings w
                 (r2\<lparr>guildSettings := object_set (guildSettings r2) (i_guildId i) changed\<rparr>))"

text \<open>The handler: whatever the branch throws is caught and written to the console.\<close>

definition on_select_menu :: "world \<Rightarrow> interaction \<Rightarrow> registry \<Rightarrow> registry" where
  "on_select_menu w i r =
     (case select_menu w i r of
        (Some e, r') \<Rightarrow> r'\<lparr>unhandled := unhandled r' @ [e]\<rparr>
      | (None, r') \<Rightarrow> r')"

section \<open>The names of the slash commands\<close>

text \<open>The decimal digits of a number, as a template literal prints a counter.\<close>

function decimal :: "nat \<Rightarrow> string" where
  "decimal n =
     (if n < 10 then [char_of (48 + n)]
      else decimal (n div 10) @ [char_of (48 + n mod 10)])"
  by pat_completeness auto
termination
  by (relation "measure (\<lambda>n. n)") auto

declare decimal.simps [simp del]

text \<open>\<^verbatim>\<open>name.slice(0, 32 - (`_${suffix}`).length) + `_${suffix}`\<close>\<close>

definition suffixed :: "string \<Rightarrow> nat \<Rightarrow> string" where
  "suffixed name suffix =
     (let tail = CHR ''_'' # decimal suffix
      in js_slice name 0 (32 - int (length tail)) @ tail)"

text \<open>
  \<^verbatim>\<open>while (usedNames.has(uniqueName) || uniqueName.length === 0) {
    uniqueName = (name.slice(0, 32 - (`_${suffix}`).length) + `_${suffix}`); suffix++; }\<close>
\<close>

function unique_name_loop :: "string list \<Rightarrow> string \<Rightarrow> string \<Rightarrow> nat \<Rightarrow> string" where
  "unique_name_loop usedNames name uniqueName suffix =
     (if uniqueName \<in> set usedNames \<or> length uniqueName = 0
      then unique_name_loop usedNames name (suffixed name suffix) (suffix + 1)
      else uniqueName)"
  by pat_completeness auto

text \<open>The loop ends because the candidates for different counters differ: each ends in
  an underscore followed by the digits of its counter, and the digits tell the counter.\<close>

definition digits_value :: "string \<Rightarrow> nat" where
  "digits_value ds = foldl (\<lambda>a d. 10 * a + (of_char d - 48)) 0 ds"

lemma digits_value_decimal: "digits_value (decimal n) = n"
proof (induction n rule: decimal.induct)
  case (1 n)
  show ?case
  proof (cases "n < 10")
    case True
    then have "decimal n = [char_of (48 + n)]" by (subst decimal.simps) simp
    moreover have "(48 + n) mod 256 = 48 + n" using True by simp
    ultimately show ?thesis by (simp add: digits_value_def)
  next
    case False
    then have d: "decimal n = decimal (n div 10) @ [char_of (48 + n mod 10)]"
      by (subst decimal.simps) simp
    have "(48 + n mod 10) mod 256 = 48 + n mod 10"
    proof -
      have "n mod 10 < 10" by simp
      then have "48 + n mod 10 < 256" by linarith
      then show ?thesis by simp
    qed
    moreover from 1 False have "digits_value (decimal (n div 10)) = n div 10" by simp
    ultimately show ?thesis using d by (simp add: digits_value_def)
  qed
qed

lemma decimal_inj: "decimal j = decimal k \<Longrightarrow> j = k"
  by (metis digits_value_decimal)

lemma decimal_no_underscore: "CHR ''_'' \<notin> set (decimal n)"
proof (induction n rule: decimal.induct)
  case (1 n)
  show ?case
  proof (cases "n < 10")
    case True
    then have "decimal n = [char_of (48 + n)]" by (subst decimal.simps) simp
    moreover have "char_of (48 + n) \<noteq> CHR ''_''"
    proof
      assume "char_of (48 + n) = CHR ''_''"
      then have "of_char (char_of (48 + n) :: char) = (of_char CHR ''_'' :: nat)" by simp
      with True show False by simp
    qed
    ultimately show ?thesis by simp
  next
    case False
    then have d: "decimal n = decimal (n div 10) @ [char_of (48 + n mod 10)]"
      by (subst decimal.simps) simp
    have "char_of (48 + n mod 10) \<noteq> CHR ''_''"
    proof
      assume "char_of (48 + n mod 10) = CHR ''_''"
      then have "of_char (char_of (48 + n mod 10) :: char) = (of_char CHR ''_'' :: nat)" by simp
      moreover have "n mod 10 < 10" by simp
      ultimately show False by simp
    qed
    with 1 False d show ?thesis by simp
  qed
qed

lemma takeWhile_until: "c \<notin> set xs \<Longrightarrow> takeWhile (\<lambda>ch. ch \<noteq> c) (xs @ c # ys) = xs"
  by (induction xs) auto

lemma suffixed_tail:
  "rev (takeWhile (\<lambda>ch. ch \<noteq> CHR ''_'') (rev (suffixed name k))) = decimal k"
proof -
  have "CHR ''_'' \<notin> set (rev (decimal k))" using decimal_no_underscore [of k] by simp
  then have "takeWhile (\<lambda>ch. ch \<noteq> CHR ''_'') (rev (decimal k) @ CHR ''_'' # xs) = rev (decimal k)"
    for xs by (rule takeWhile_until)
  then show ?thesis by (simp add: suffixed_def Let_def)
qed

lemma suffixed_inj: "suffixed name j = suffixed name k \<Longrightarrow> j = k"
  by (metis suffixed_tail decimal_inj)

lemma suffixed_not_empty: "suffixed name k \<noteq> []"
  by (simp add: suffixed_def Let_def)

lemma finite_used_counters: "finite {k. suffixed name k \<in> set usedNames}"
proof -
  have "inj (suffixed name)" by (rule injI) (rule suffixed_inj)
  then have "finite (suffixed name -` set usedNames)" by (simp add: finite_vimageI)
  then show ?thesis by (simp add: vimage_def)
qed

termination unique_name_loop
proof (relation "measure (\<lambda>(usedNames, name, uniqueName, suffix).
          2 * card {k. suffix \<le> k \<and> suffixed name k \<in> set usedNames}
          + (if uniqueName \<in> set usedNames \<or> length uniqueName = 0 then 1 else 0))")
  show "wf (measure (\<lambda>(usedNames, name, uniqueName, suffix).
          2 * card {k. suffix \<le> k \<and> suffixed name k \<in> set usedNames}
          + (if uniqueName \<in> set usedNames \<or> length uniqueName = 0 then 1 else 0)))"
    by simp
next
  fix usedNames :: "string list" and name uniqueName :: string and suffix :: nat
  assume again: "uniqueName \<in> set usedNames \<or> length uniqueName = 0"
  let ?A = "{k. suffix \<le> k \<and> suffixed name k \<in> set usedNames}"
  let ?B = "{k. suffix + 1 \<le> k \<and> suffixed name k \<in> set usedNames}"
  have fin: "finite ?A" using finite_used_counters [of name usedNames] by simp
  have sub: "?B \<subseteq> ?A" by auto
  have "2 * card ?B + (if suffixed name suffix \<in> set usedNames then 1 else 0) < 2 * card ?A + 1"
  proof (cases "suffixed name suffix \<in> set usedNames")
    case True
    then have "suffix \<in> ?A" "suffix \<notin> ?B" by simp_all
    with sub have "?B \<subset> ?A" by blast
    with fin have "card ?B < card ?A" by (rule psubset_card_mono)
    with True show ?thesis by simp
  next
    case False
    from fin sub have "card ?B \<le> card ?A" by (rule card_mono)
    with False show ?thesis by simp
  qed
  with again
  show "((usedNames, name, suffixed name suffix, suffix + 1), usedNames, name, uniqueName, suffix)
          \<in> measure (\<lambda>(usedNames, name, uniqueName, suffix).
              2 * card {k. suffix \<le> k \<and> suffixed name k \<in> set usedNames}
              + (if uniqueName \<in> set usedNames \<or> length uniqueName = 0 then 1 else 0))"
    by (simp add: suffixed_not_empty)
qed

declare unique_name_loop.simps [simp del]

text \<open>The name of an item before it is made unique: the three replacements, then
  \<^verbatim>\<open>if (name.length > 32) name = name.slice(0, 32)\<close>.\<close>

definition command_base :: "string \<Rightarrow> string" where
  "command_base item =
     (let name = replace_runs is_underscore (strip_underscores
                   (replace_runs not_a_z0_9 (toLowerCase item)))
      in if length name > 32 then js_slice name 0 32 else name)"

record command =
  cmd_name :: string
  cmd_description :: string

text \<open>
  The callback of \<^verbatim>\<open>dropdownItems.map\<close>, item by item, with the set \<^verbatim>\<open>usedNames\<close> and the
  object \<^verbatim>\<open>commandNameToDropdownItem\<close> it updates; the result is the list of commands and
  the two as they are after the last item.
\<close>

fun register_commands ::
  "string list \<Rightarrow> string list \<Rightarrow> (string \<rightharpoonup> string)
     \<Rightarrow> command list \<times> string list \<times> (string \<rightharpoonup> string)" where
  "register_commands [] usedNames commandNameToDropdownItem =
     ([], usedNames, commandNameToDropdownItem)"
| "register_commands (item # items) usedNames commandNameToDropdownItem =
     (let name = command_base item;
          uniqueName = unique_name_loop usedNames name name 1
      in case register_commands items (usedNames @ [uniqueName])
                (commandNameToDropdownItem(uniqueName \<mapsto> item)) of
           (commands, final) \<Rightarrow>
             (\<lparr>cmd_name = uniqueName, cmd_description = ''Get info for: '' @ item\<rparr> # commands,
              final))"

definition commands_on_ready :: "string list \<Rightarrow> command list \<times> string list \<times> (string \<rightharpoonup> string)" where
  "commands_on_ready dropdownItems = register_commands dropdownItems [] Map.empty"

section \<open>A small configuration\<close>

text \<open>Two guilds watch the page \<^verbatim>\<open>Menu\<close> and post to their text channel \<^verbatim>\<open>c1\<close>; every call to
  the outside succeeds. Variants of this world fail one call.\<close>

definition ex_settings :: settings where
  "ex_settings = \<lparr>pages = [''Menu''], roles = [''Menu'' \<mapsto> [''r1'']], channel = Some ''c1''\<rparr>"

definition ex_world :: world where
  "ex_world =
     \<lparr>backend = FileStore,
      guilds_cache = [''g1'' \<mapsto> [''c1'' \<mapsto> 0], ''g2'' \<mapsto> [''c1'' \<mapsto> 0]],
      send_fails = (\<lambda>n. False),
      ledger_save_fails = (\<lambda>n. False),
      cache_read_fails = (\<lambda>item. False),
      cache_write_fails = (\<lambda>item. False),
      getContentForDropdownItem = (\<lambda>item. Inr ''soup''),
      settings_write_fails = False,
      reply_fails = False\<rparr>"

definition ex_cache :: cache where
  "ex_cache = [''menu.txt'' \<mapsto> ''soup'']"

definition ex_start :: notifier where
  "ex_start = \<lparr>lastSentContent = Map.empty, outbox = [], console = [], sends = 0, saves = 0\<rparr>"

text \<open>A state in which guild \<^verbatim>\<open>g1\<close> has been sent an older text of the page.\<close>

definition ex_sent_before :: notifier where
  "ex_sent_before =
     \<lparr>lastSentContent = [''g1'' \<mapsto> [''Menu'' \<mapsto> ''stew'']], outbox = [], console = [],
      sends = 0, saves = 0\<rparr>"

text \<open>A tick of the scheduler at 15:33, and the scheduler before its first check.\<close>

definition ex_tick :: tick where
  "ex_tick = \<lparr>tick_world = ex_world, tick_cache = ex_cache,
              tick_settings = [(''g1'', ex_settings)], tick_hour = 15, tick_minute = 33\<rparr>"

definition ex_scheduler :: scheduler where
  "ex_scheduler = \<lparr>lastMinuteChecked = None, job_state = ex_start\<rparr>"

chapter \<open>Properties\<close>

section \<open>Slices\<close>

lemma js_slice_prefix: "js_slice s 0 (int k) = take k s"
  by (simp add: js_slice_def Let_def min_def)

lemma js_slice_window: "js_slice s (int i) (int i + int k) = take k (drop i s)"
proof -
  have "drop (min i (length s)) (take (min (i + k) (length s)) s) = take k (drop i s)"
    by (simp add: drop_take min_def)
  moreover have "nat (min (int i) (int (length s))) = min i (length s)"
    by (simp add: min_def)
  moreover have "nat (min (int i + int k) (int (length s))) = min (i + k) (length s)"
    by (simp add: min_def nat_add_distrib)
  ultimately show ?thesis
    by (simp add: js_slice_def Let_def)
qed

section \<open>Normalisation of a label\<close>

lemma dropWhile_head: "dropWhile P xs = y # ys \<Longrightarrow> \<not> P y"
  by (metis dropWhile_eq_Cons_conv)

lemma underscore_not_alnum: "not_a_z0_9 CHR ''_''"
  by (simp add: not_a_z0_9_def is_a_z0_9_def)

lemma no_double_replace_runs: "no_double (replace_runs not_a_z0_9 s)"
proof (induction not_a_z0_9 s rule: replace_runs.induct)
  case 1
  show ?case by simp
next
  case (2 c cs)
  show ?case
  proof (cases "not_a_z0_9 c")
    case True
    show ?thesis
    proof (cases "dropWhile not_a_z0_9 cs")
      case Nil
      have "replace_runs not_a_z0_9 (c # cs) = [CHR ''_'']"
        using True by (simp only: replace_runs.simps Nil if_True)
      then show ?thesis by simp
    next
      case (Cons y ys)
      then have ny: "\<not> not_a_z0_9 y" by (rule dropWhile_head)
      then have "y \<noteq> CHR ''_''" using underscore_not_alnum by auto
      with True Cons ny 2(1) show ?thesis by simp
    qed
  next
    case False
    then have cn: "c \<noteq> CHR ''_''" using underscore_not_alnum by auto
    show ?thesis
    proof (cases "replace_runs not_a_z0_9 cs")
      case Nil
      with False show ?thesis by simp
    next
      case (Cons y ys)
      with False cn 2(2) show ?thesis by simp
    qed
  qed
qed

lemma no_double_append: "no_double (xs @ ys) \<Longrightarrow> no_double xs \<and> no_double ys"
proof (induction xs rule: no_double.induct)
  case 1
  then show ?case by simp
next
  case (2 c)
  then show ?case by (cases ys) auto
next
  case (3 a b cs)
  then show ?case by auto
qed

lemma no_double_strip:
  assumes "no_double s"
  shows "no_double (strip_underscores s)"
proof -
  let ?d = "dropWhile is_underscore s"
  have "s = takeWhile is_underscore s @ ?d" by simp
  with assms have d: "no_double ?d" by (metis no_double_append)
  have "rev ?d = takeWhile is_underscore (rev ?d) @ dropWhile is_underscore (rev ?d)" by simp
  then have "?d = rev (dropWhile is_underscore (rev ?d)) @ rev (takeWhile is_underscore (rev ?d))"
    by (metis rev_append rev_rev_ident)
  with d show ?thesis unfolding strip_underscores_def by (metis no_double_append)
qed

text \<open>The third replacement of the source, \<^verbatim>\<open>.replace(/_+/g, '_')\<close>, changes nothing: after
  the first one no two underscores are adjacent.\<close>

lemma replace_runs_underscore_id: "no_double s \<Longrightarrow> replace_runs is_underscore s = s"
proof (induction s rule: no_double.induct)
  case 1
  then show ?case by simp
next
  case (2 c)
  then show ?case by (simp add: is_underscore_def)
next
  case (3 a b cs)
  then show ?case by (auto simp: is_underscore_def)
qed

lemma collapse_spec_eq:
  "collapse_spec False s = replace_runs not_a_z0_9 s"
  "collapse_spec True s = replace_runs not_a_z0_9 (dropWhile not_a_z0_9 s)"
proof (induction s)
  case Nil
  { case 1 show ?case by simp }
  { case 2 show ?case by simp }
next
  case (Cons c cs)
  { case 1 with Cons show ?case by (simp add: not_a_z0_9_def) }
  { case 2 with Cons show ?case by (simp add: not_a_z0_9_def) }
qed

lemma strip_tail_foldr:
  "foldr (\<lambda>c acc. if c = CHR ''_'' \<and> acc = [] then [] else c # acc) s [] =
     rev (dropWhile is_underscore (rev s))"
proof (induction s)
  case Nil
  show ?case by simp
next
  case (Cons c cs)
  show ?case
    by (simp add: Cons dropWhile_append is_underscore_def)
qed

lemma strip_spec_eq: "strip_spec s = strip_underscores s"
proof -
  have "(\<lambda>c. c = CHR ''_'') = is_underscore" by (auto simp: is_underscore_def)
  then show ?thesis
    by (simp add: strip_spec_def strip_underscores_def strip_tail_foldr)
qed

lemma normalize_pipeline:
  "normalizeDropdownName name =
     take 32 (strip_underscores (replace_runs not_a_z0_9 (toLowerCase name)))"
proof -
  have "no_double (strip_underscores (replace_runs not_a_z0_9 (toLowerCase name)))"
    by (rule no_double_strip) (rule no_double_replace_runs)
  then show ?thesis
    using js_slice_prefix [of _ 32]
    by (simp add: normalizeDropdownName_def replace_runs_underscore_id)
qed

text \<open>
  Claim C8. The identifier of a label is a function of the label alone (it reads nothing
  but its argument, so equal labels get equal identifiers), and for every label it is the
  label in lower case, with every run of non-alphanumeric characters collapsed to one
  underscore, the underscores at both ends stripped, cut to at most 32 characters: the
  source's chain of replacements computes what the specification words.
\<close>

theorem C8_normalize_refines_spec:
  "normalizeDropdownName label = normalize_spec label
   \<and> length (normalizeDropdownName label) \<le> 32"
  by (simp add: normalize_pipeline normalize_spec_def collapse_spec_eq strip_spec_eq)

section \<open>Chunks\<close>

lemma div_step: "(1900::nat) \<le> d \<Longrightarrow> Suc ((d - 1900 + 1899) div 1900) = (d + 1899) div 1900"
proof -
  assume a: "(1900::nat) \<le> d"
  then have "d + 1899 = (d - 1900 + 1899) + 1900" by simp
  then have "(d + 1899) div 1900 = ((d - 1900 + 1899) + 1900) div 1900" by simp
  also have "\<dots> = Suc ((d - 1900 + 1899) div 1900)" by (simp only: div_add_self2)
  finally show ?thesis by simp
qed

lemma div_small: "0 < d \<Longrightarrow> d < (1900::nat) \<Longrightarrow> (d + 1899) div 1900 = 1"
proof -
  assume a: "0 < d" "d < (1900::nat)"
  then have "d + 1899 = 1900 + (d - 1)" by simp
  moreover have "(d - 1) div 1900 = 0" using a by simp
  ultimately show ?thesis by (simp only: div_add_self1 add_0_right)
qed

lemma div_zero: "((n::nat) + 1899) div 1900 = 0 \<longleftrightarrow> n = 0"
proof
  assume "(n + 1899) div 1900 = 0"
  then have "n + 1899 < 1900" by (simp add: div_eq_0_iff)
  then show "n = 0" by simp
next
  assume "n = 0" then show "(n + 1899) div 1900 = 0" by simp
qed

lemma div_step_all: "0 < d \<Longrightarrow> Suc ((d - 1900 + 1899) div 1900) = ((d::nat) + 1899) div 1900"
proof (cases "1900 \<le> d")
  case True
  then show ?thesis by (rule div_step)
next
  case False
  assume "0 < d"
  with False have "(d + 1899) div 1900 = 1" by (simp add: div_small)
  moreover from False have "d - 1900 = 0" by simp
  ultimately show ?thesis by simp
qed

lemma chunk_loop_concat: "concat (chunk_loop s i acc) = concat acc @ drop i s"
proof (induction s i acc rule: chunk_loop.induct)
  case (1 content i chunks)
  show ?case
  proof (cases "i < length content")
    case True
    have "drop (i + 1900) content = drop 1900 (drop i content)"
      by (simp add: add.commute)
    with True 1 js_slice_window [of content i 1900] show ?thesis
      by (simp add: chunk_loop.simps [of content i] del: drop_drop)
  next
    case False
    then show ?thesis by (simp add: chunk_loop.simps [of content i])
  qed
qed

lemma chunk_loop_length:
  "length (chunk_loop s i acc) = length acc + (length s - i + 1899) div 1900"
proof (induction s i acc rule: chunk_loop.induct)
  case (1 content i chunks)
  show ?case
  proof (cases "i < length content")
    case True
    have "length content - (i + 1900) = length content - i - 1900" by simp
    moreover have "0 < length content - i" using True by simp
    ultimately have
      "Suc ((length content - (i + 1900) + 1899) div 1900) = (length content - i + 1899) div 1900"
      by (simp only: div_step_all)
    with True 1 show ?thesis by (simp add: chunk_loop.simps [of content i])
  next
    case False
    then show ?thesis by (simp add: chunk_loop.simps [of content i])
  qed
qed

lemma chunks_of_Nil: "chunks_of [] = []"
  by (simp add: chunks_of_def chunk_loop.simps [of "[]"])

lemma chunks_of_empty_iff: "chunks_of s = [] \<longleftrightarrow> s = []"
proof -
  have "length (chunks_of s) = (length s + 1899) div 1900"
    by (simp add: chunks_of_def chunk_loop_length)
  moreover have "(length s + 1899) div 1900 = 0 \<longleftrightarrow> length s = 0" by (rule div_zero)
  ultimately show ?thesis by (metis length_0_conv)
qed

text \<open>
  Claim C5. For a string of length L cut with chunk size 1900, the chunks in order
  concatenate to the string and there are ceil(L / 1900) of them (for L = 0 there is no
  chunk); the messages sent for an update carry exactly these chunks when L > 0, and are
  the single placeholder \<^verbatim>\<open>No content found.\<close> when L = 0.
\<close>

theorem C5_chunk_roundtrip:
  "concat (chunks_of s) = s
   \<and> length (chunks_of s) = (length s + 1899) div 1900
   \<and> map msg_description (update_messages mentions pageName s)
       = (if length s = 0 then [''No content found.''] else chunks_of s)"
proof -
  have a: "concat (chunks_of s) = s"
    by (simp add: chunks_of_def chunk_loop_concat)
  have b: "length (chunks_of s) = (length s + 1899) div 1900"
    by (simp add: chunks_of_def chunk_loop_length)
  have c: "map msg_description (update_messages mentions pageName s)
       = (if length s = 0 then [''No content found.''] else chunks_of s)"
  proof (cases "chunks_of s")
    case Nil
    then have "s = []" by (simp only: chunks_of_empty_iff)
    with Nil show ?thesis by (simp add: update_messages_def)
  next
    case (Cons c0 rest)
    have "s \<noteq> []"
    proof
      assume "s = []"
      then have "chunks_of s = []" by (simp only: chunks_of_Nil)
      with Cons show False by simp
    qed
    moreover have "map msg_description (update_messages mentions pageName s) = c0 # rest"
      by (simp add: update_messages_def Cons comp_def)
    ultimately show ?thesis by (simp add: Cons)
  qed
  show ?thesis
    apply (intro conjI)
      apply (rule a)
     apply (rule b)
    apply (rule c)
    done
qed

section \<open>The notification window\<close>

lemma allowed_loop_slots:
  "allowed_loop n t \<longleftrightarrow> (\<exists>k. n = t + 30 * k \<and> n \<le> 22 * 60)"
proof (induction n t rule: allowed_loop.induct)
  case (1 nowMinutes t)
  show ?case
  proof (cases "t \<le> 22 * 60")
    case False
    then show ?thesis by (auto simp: allowed_loop.simps [of nowMinutes t])
  next
    case le: True
    show ?thesis
    proof (cases "nowMinutes = t")
      case True
      have "allowed_loop t t" using le by (subst allowed_loop.simps) simp
      with le True show ?thesis by auto
    next
      case False
      have "(\<exists>k. nowMinutes = t + 30 + 30 * k \<and> nowMinutes \<le> 22 * 60)
            \<longleftrightarrow> (\<exists>k. nowMinutes = t + 30 * k \<and> nowMinutes \<le> 22 * 60)"
      proof
        assume "\<exists>k. nowMinutes = t + 30 + 30 * k \<and> nowMinutes \<le> 22 * 60"
        then obtain k where "nowMinutes = t + 30 * Suc k" "nowMinutes \<le> 22 * 60" by auto
        then show "\<exists>k. nowMinutes = t + 30 * k \<and> nowMinutes \<le> 22 * 60" by blast
      next
        assume "\<exists>k. nowMinutes = t + 30 * k \<and> nowMinutes \<le> 22 * 60"
        then obtain k where k: "nowMinutes = t + 30 * k" "nowMinutes \<le> 22 * 60" by auto
        with False obtain j where "k = Suc j" by (cases k) auto
        with k show "\<exists>k. nowMinutes = t + 30 + 30 * k \<and> nowMinutes \<le> 22 * 60" by auto
      qed
      with le False 1 show ?thesis by (simp add: allowed_loop.simps [of nowMinutes t])
    qed
  qed
qed

text \<open>The check passes exactly at the minutes 15:33 + 30 k that are not after 22:00:
  15:33, 16:03, ..., 21:33.\<close>

lemma allowed_at_slots:
  "allowed_at hour minute \<longleftrightarrow> (\<exists>k \<le> 12. hour * 60 + minute = 933 + 30 * k)"
proof -
  have "allowed_at hour minute
        \<longleftrightarrow> (\<exists>k. hour * 60 + minute = 933 + 30 * k \<and> hour * 60 + minute \<le> 1320)"
    by (simp add: allowed_at_def allowed_loop_slots)
  also have "\<dots> \<longleftrightarrow> (\<exists>k \<le> 12. hour * 60 + minute = 933 + 30 * k)"
  proof
    assume "\<exists>k. hour * 60 + minute = 933 + 30 * k \<and> hour * 60 + minute \<le> 1320"
    then obtain k where k: "hour * 60 + minute = 933 + 30 * k" "hour * 60 + minute \<le> 1320"
      by blast
    then have "k \<le> 12" by arith
    with k show "\<exists>k \<le> 12. hour * 60 + minute = 933 + 30 * k" by blast
  next
    assume "\<exists>k \<le> 12. hour * 60 + minute = 933 + 30 * k"
    then obtain k where k: "k \<le> 12" "hour * 60 + minute = 933 + 30 * k" by blast
    then have "hour * 60 + minute \<le> 1320" by arith
    with k show "\<exists>k. hour * 60 + minute = 933 + 30 * k \<and> hour * 60 + minute \<le> 1320"
      by blast
  qed
  finally show ?thesis .
qed

lemma allowed_at_examples:
  "allowed_at 15 33" "\<not> allowed_at 16 0" "allowed_at 16 3" "\<not> allowed_at 22 30"
  "allowed_at 21 33"
  by code_simp+

text \<open>
  Claim C3, at 22:00. The claim, and the comment above the loop
  (\<^verbatim>\<open>Allowed times: 15:33, 16:03, 16:33, ..., 22:00\<close>), count 22:00 among the times of the
  window. The loop steps by 30 minutes from 15:33, passes 21:33 and leaves at 22:03: at
  22:00 the check does not pass.
\<close>

theorem C3_no_slot_at_2200: "allowed_at 22 0 = False"
  by code_simp

section \<open>Loops\<close>

text \<open>A property that every step keeps, whatever the step's outcome, holds where the
  loop stops.\<close>

lemma for_each_invariant:
  assumes step: "\<And>x s r s'. x \<in> set xs \<Longrightarrow> P s \<Longrightarrow> body x s = (r, s') \<Longrightarrow> P s'"
    and init: "P s"
    and run: "for_each body xs s = (r, s')"
  shows "P s'"
  using assms
proof (induction xs arbitrary: s)
  case Nil
  then show ?case by simp
next
  case (Cons x xs)
  obtain r1 s1 where b: "body x s = (r1, s1)" by (cases "body x s")
  have p1: "P s1" using Cons.prems(1) [of x s r1 s1] Cons.prems(2) b by simp
  have step': "\<And>z t q t'. z \<in> set xs \<Longrightarrow> P t \<Longrightarrow> body z t = (q, t') \<Longrightarrow> P t'"
    using Cons.prems(1) by (meson list.set_intros(2))
  show ?case
  proof (cases r1)
    case None
    with b Cons.prems(3) have "for_each body xs s1 = (r, s')" by simp
    with Cons.IH [OF step' p1] show ?thesis by simp
  next
    case (Some e)
    with b Cons.prems(3) have "s' = s1" by simp
    with p1 show ?thesis by simp
  qed
qed



text \<open>A loop stops at the first step that rejects.\<close>

lemma for_each_stops:
  "body x s = (Some e, s') \<Longrightarrow> for_each body (x # xs) s = (Some e, s')"
  by simp

section \<open>Sending an update\<close>

lemma channel_send_frame:
  assumes "channel_send w g ch m s = (r, s')"
  shows "lastSentContent s' = lastSentContent s" and "console s' = console s"
    and "saves s' = saves s"
  using assms by (auto simp: channel_send_def split: if_splits)

lemma channel_send_outbox:
  assumes "channel_send w g ch m s = (r, s')"
  shows "outbox s' = (if r = None then outbox s @ [(g, ch, m)] else outbox s)"
  using assms by (auto simp: channel_send_def split: if_splits)

text \<open>A run of sends leaves the registry and the console alone and appends to the outbox
  a prefix of the messages: all of them when it completes.\<close>

lemma send_all_frame:
  assumes "for_each (channel_send w g ch) ms s = (r, s')"
  shows "lastSentContent s' = lastSentContent s \<and> console s' = console s \<and> saves s' = saves s"
proof -
  let ?P = "\<lambda>t. lastSentContent t = lastSentContent s \<and> console t = console s
                \<and> saves t = saves s"
  have "?P s'"
  proof (rule for_each_invariant [where P = ?P, OF _ _ assms])
    show "?P s" by simp
  next
    fix x t r t'
    assume "?P t" "channel_send w g ch x t = (r, t')"
    then show "?P t'" using channel_send_frame [of w g ch x t r t'] by simp
  qed
  then show ?thesis .
qed

lemma send_all_outbox:
  assumes "for_each (channel_send w g ch) ms s = (r, s')"
  shows "\<exists>k \<le> length ms. outbox s' = outbox s @ map (\<lambda>m. (g, ch, m)) (take k ms)
            \<and> (r = None \<longrightarrow> k = length ms)"
  using assms
proof (induction ms arbitrary: s)
  case Nil
  then show ?case by simp
next
  case (Cons m ms)
  obtain r1 s1 where b: "channel_send w g ch m s = (r1, s1)"
    by (cases "channel_send w g ch m s")
  show ?case
  proof (cases r1)
    case (Some e)
    with b Cons.prems have "s' = s1" "r = Some e" by simp_all
    with b Some channel_send_outbox [OF b] have "outbox s' = outbox s" "r \<noteq> None" by simp_all
    then have "outbox s' = outbox s @ map (\<lambda>m. (g, ch, m)) (take 0 (m # ms))
               \<and> (r = None \<longrightarrow> 0 = length (m # ms))" by simp
    then show ?thesis by blast
  next
    case None
    with b Cons.prems have "for_each (channel_send w g ch) ms s1 = (r, s')" by simp
    from Cons.IH [OF this] obtain k where k: "k \<le> length ms"
      "outbox s' = outbox s1 @ map (\<lambda>m. (g, ch, m)) (take k ms)" "r = None \<longrightarrow> k = length ms"
      by blast
    from None channel_send_outbox [OF b] have "outbox s1 = outbox s @ [(g, ch, m)]" by simp
    with k have "Suc k \<le> length (m # ms)
       \<and> outbox s' = outbox s @ map (\<lambda>m. (g, ch, m)) (take (Suc k) (m # ms))
       \<and> (r = None \<longrightarrow> Suc k = length (m # ms))" by simp
    then show ?thesis by blast
  qed
qed

text \<open>Only the first message of an update carries the page's title.\<close>

lemma update_messages_shape:
  "\<exists>m ms. update_messages mentions p content = m # ms
      \<and> msg_title m = Some (''Update: '' @ p) \<and> (\<forall>x \<in> set ms. msg_title x = None)"
  by (cases "chunks_of content") (auto simp: update_messages_def)

definition titled :: "guildId \<Rightarrow> pageName \<Rightarrow> guildId \<times> channelId \<times> message \<Rightarrow> bool" where
  "titled g p = (\<lambda>(g', ch, m). g' = g \<and> msg_title m = Some (''Update: '' @ p))"

lemma deliveries_titled: "deliveries g p s = length (filter (titled g p) (outbox s))"
  by (simp add: deliveries_def titled_def)

lemma titled_iff:
  "titled g0 p0 (g, ch, m) \<longleftrightarrow> g = g0 \<and> msg_title m = Some (''Update: '' @ p0)"
  by (auto simp: titled_def)

lemma untitled_rest:
  assumes "\<forall>x \<in> set ms. msg_title x = None"
  shows "filter (titled g0 p0 \<circ> (\<lambda>m. (g, ch, m))) ms = []"
    and "filter (titled g0 p0) (map (\<lambda>m. (g, ch, m)) ms) = []"
  using assms by (induction ms) (auto simp: titled_iff)

lemma titled_prefix:
  assumes "update_messages mentions p content = ms"
  shows "length (filter (titled g0 p0) (map (\<lambda>m. (g, ch, m)) (take k ms)))
           = (if g = g0 \<and> p = p0 \<and> 0 < k then 1 else 0)"
proof -
  from update_messages_shape [of mentions p content] assms
  obtain m rest where sh: "ms = m # rest" "msg_title m = Some (''Update: '' @ p)"
    "\<forall>x \<in> set rest. msg_title x = None" by auto
  show ?thesis
  proof (cases k)
    case 0
    then show ?thesis by simp
  next
    case (Suc j)
    have "\<forall>x \<in> set (take j rest). msg_title x = None"
      using sh(3) by (meson in_set_takeD)
    from untitled_rest [OF this, of g0 p0 g ch] sh Suc show ?thesis
      by (auto simp: titled_iff)
  qed
qed

text \<open>What an update does to the count of a pair: nothing for another pair, one more
  for its own pair as soon as its first message is out.\<close>

lemma send_update_deliveries:
  assumes "for_each (channel_send w g ch) (update_messages mentions p content) s = (r, s')"
  shows "(g \<noteq> g0 \<or> p \<noteq> p0 \<longrightarrow> deliveries g0 p0 s' = deliveries g0 p0 s)
       \<and> (g = g0 \<and> p = p0 \<and> r = None \<longrightarrow> deliveries g0 p0 s' = Suc (deliveries g0 p0 s))"
proof -
  from send_all_outbox [OF assms] obtain k where
    k: "outbox s' = outbox s @ map (\<lambda>m. (g, ch, m)) (take k (update_messages mentions p content))"
       "r = None \<longrightarrow> k = length (update_messages mentions p content)"
    by blast
  have pos: "0 < length (update_messages mentions p content)"
    using update_messages_shape [of mentions p content] by auto
  have "deliveries g0 p0 s' = deliveries g0 p0 s + (if g = g0 \<and> p = p0 \<and> 0 < k then 1 else 0)"
    using k(1) titled_prefix [OF refl, of g0 p0 g ch k mentions p content]
    by (simp add: deliveries_titled)
  with k(2) pos show ?thesis by auto
qed

section \<open>One page of one guild\<close>

lemma ledger_get_set:
  "ledger_get (ledger_set l g p x) g0 p0
     = (if g = g0 \<and> p = p0 then Some x else ledger_get l g0 p0)"
  by (auto simp: ledger_get_def ledger_set_def split: option.splits)

lemma ledger_get_init:
  "l g = None \<Longrightarrow> ledger_get (l(g \<mapsto> Map.empty)) g0 p0 = ledger_get l g0 p0"
  by (auto simp: ledger_get_def split: option.splits)

lemma saveLastSentContent_frame:
  assumes "saveLastSentContent w s = (r, s')"
  shows "lastSentContent s' = lastSentContent s" and "outbox s' = outbox s"
    and "console s' = console s"
  using assms by (auto simp: saveLastSentContent_def split: if_splits)

lemma deliveries_outbox: "outbox s' = outbox s \<Longrightarrow> deliveries g p s' = deliveries g p s"
  by (simp add: deliveries_def)

text \<open>The five ways through the body of the page loop.\<close>

lemma notify_page_cases:
  assumes "notify_page w c g st ch p s = (r, s')"
  obtains
    (read_failed) e where "readDropdownCache w c p = Inl e" "r = None"
      "s' = s\<lparr>console := console s @ [NotifyCacheError p g]\<rparr>"
  | (quiet) content where "readDropdownCache w c p = Inr content"
      "content = [] \<or> ledger_get (lastSentContent s) g p = Some content" "r = None" "s' = s"
  | (send_failed) content e where "readDropdownCache w c p = Inr content" "content \<noteq> []"
      "ledger_get (lastSentContent s) g p \<noteq> Some content"
      "for_each (channel_send w g ch) (update_messages (roleMentions st p) p content) s
         = (Some e, s')"
      "r = Some e"
  | (save_failed) content e s1 where "readDropdownCache w c p = Inr content" "content \<noteq> []"
      "ledger_get (lastSentContent s) g p \<noteq> Some content"
      "for_each (channel_send w g ch) (update_messages (roleMentions st p) p content) s
         = (None, s1)"
      "saveLastSentContent w (s1\<lparr>lastSentContent := ledger_set (lastSentContent s1) g p content\<rparr>)
         = (Some e, s')"
      "r = Some e"
  | (sent) content s1 s2 where "readDropdownCache w c p = Inr content" "content \<noteq> []"
      "ledger_get (lastSentContent s) g p \<noteq> Some content"
      "for_each (channel_send w g ch) (update_messages (roleMentions st p) p content) s
         = (None, s1)"
      "saveLastSentContent w (s1\<lparr>lastSentContent := ledger_set (lastSentContent s1) g p content\<rparr>)
         = (None, s2)"
      "r = None" "s' = s2\<lparr>console := console s2 @ [NotifySent p g ch]\<rparr>"
proof (cases "readDropdownCache w c p")
  case (Inl e)
  with assms have "r = None" "s' = s\<lparr>console := console s @ [NotifyCacheError p g]\<rparr>"
    by (simp_all add: notify_page_def)
  with Inl show ?thesis by (rule read_failed)
next
  case (Inr content)
  show ?thesis
  proof (cases "content \<noteq> [] \<and> ledger_get (lastSentContent s) g p \<noteq> Some content")
    case False
    with Inr assms have "r = None" "s' = s" by (auto simp: notify_page_def)
    with Inr False show ?thesis using quiet by blast
  next
    case True
    obtain r1 s1 where
      snd: "for_each (channel_send w g ch) (update_messages (roleMentions st p) p content) s
              = (r1, s1)"
      by (cases "for_each (channel_send w g ch)
                   (update_messages (roleMentions st p) p content) s")
    show ?thesis
    proof (cases r1)
      case (Some e)
      with Inr True snd assms have "r = Some e" "s' = s1" by (auto simp: notify_page_def)
      with Inr True snd Some show ?thesis using send_failed by blast
    next
      case None
      obtain r2 s2 where
        sv: "saveLastSentContent w
               (s1\<lparr>lastSentContent := ledger_set (lastSentContent s1) g p content\<rparr>) = (r2, s2)"
        by (cases "saveLastSentContent w
                     (s1\<lparr>lastSentContent := ledger_set (lastSentContent s1) g p content\<rparr>)")
      show ?thesis
      proof (cases r2)
        case (Some e)
        with Inr True snd None sv assms have "r = Some e" "s' = s2"
          by (auto simp: notify_page_def)
        with Inr True snd None sv Some show ?thesis using save_failed by blast
      next
        case n2: None
        with Inr True snd None sv assms have
          "r = None" "s' = s2\<lparr>console := console s2 @ [NotifySent p g ch]\<rparr>"
          by (auto simp: notify_page_def)
        with Inr True snd None sv n2 show ?thesis using sent by blast
      qed
    qed
  qed
qed

text \<open>The step for one pair leaves the snapshot and the count of every other pair alone,
  whatever its outcome.\<close>

lemma notify_page_other:
  assumes run: "notify_page w c g st ch p s = (r, s')" and other: "g \<noteq> g0 \<or> p \<noteq> p0"
  shows "ledger_get (lastSentContent s') g0 p0 = ledger_get (lastSentContent s) g0 p0
       \<and> deliveries g0 p0 s' = deliveries g0 p0 s"
  using run
proof (cases rule: notify_page_cases)
  case (read_failed e)
  then show ?thesis by (simp add: deliveries_def)
next
  case (quiet content)
  then show ?thesis by simp
next
  case (send_failed content e)
  from send_all_frame [OF send_failed(4)] send_update_deliveries [OF send_failed(4), of g0 p0] other
  show ?thesis by auto
next
  case (save_failed content e s1)
  from send_all_frame [OF save_failed(4)] send_update_deliveries [OF save_failed(4), of g0 p0]
    saveLastSentContent_frame [OF save_failed(5)] other
  show ?thesis by (auto simp: ledger_get_set deliveries_def)
next
  case (sent content s1 s2)
  from send_all_frame [OF sent(4)] send_update_deliveries [OF sent(4), of g0 p0]
    saveLastSentContent_frame [OF sent(5)] other sent(7)
  show ?thesis by (auto simp: ledger_get_set deliveries_def)
qed

text \<open>The step for a pair whose cached text is empty, or equals the pair's snapshot,
  changes nothing at all.\<close>

lemma notify_page_quiet:
  assumes "readDropdownCache w c p = Inr content"
    and "content = [] \<or> ledger_get (lastSentContent s) g p = Some content"
  shows "notify_page w c g st ch p s = (None, s)"
  using assms by (auto simp: notify_page_def)


section \<open>The whole pass\<close>

text \<open>What every page step keeps, and the creation of a guild's empty registry keeps,
  the pass keeps: first for any outcome, then for the steps of a pass that completes.\<close>

lemma notify_guild_invariant:
  assumes step: "\<And>g st ch p s r s'. P s \<Longrightarrow> notify_page w c g st ch p s = (r, s') \<Longrightarrow> P s'"
    and init: "\<And>s g. lastSentContent s g = None \<Longrightarrow> P s
                 \<Longrightarrow> P (s\<lparr>lastSentContent := (lastSentContent s)(g \<mapsto> Map.empty)\<rparr>)"
    and p: "P s"
    and run: "notify_guild w c entry s = (r, s')"
  shows "P s'"
proof -
  obtain g st where entry: "entry = (g, st)" by (cases entry)
  show ?thesis
  proof (cases "target_channel w g st")
    case None
    with entry run p show ?thesis by (simp add: notify_guild_def)
  next
    case (Some ch)
    let ?s0 = "if lastSentContent s g = None
               then s\<lparr>lastSentContent := (lastSentContent s)(g \<mapsto> Map.empty)\<rparr> else s"
    have p0: "P ?s0" using p init by simp
    from Some entry run have "for_each (notify_page w c g st ch) (pages st) ?s0 = (r, s')"
      by (simp add: notify_guild_def)
    from for_each_invariant [where P = P, OF _ p0 this] step show ?thesis by blast
  qed
qed

lemma job_invariant:
  assumes step: "\<And>g st ch p s r s'. P s \<Longrightarrow> notify_page w c g st ch p s = (r, s') \<Longrightarrow> P s'"
    and init: "\<And>s g. lastSentContent s g = None \<Longrightarrow> P s
                 \<Longrightarrow> P (s\<lparr>lastSentContent := (lastSentContent s)(g \<mapsto> Map.empty)\<rparr>)"
    and p: "P s"
    and run: "runNotificationJob w c gs s = (r, s')"
  shows "P s'"
proof -
  from run have "for_each (notify_guild w c) gs s = (r, s')"
    by (simp add: runNotificationJob_def)
  have loop: "for_each (notify_guild w c) gs s = (r, s')" by fact
  have guild: "P t'" if "P t" and "notify_guild w c x t = (q, t')" for x t q t'
  proof (rule notify_guild_invariant [where P = P and w = w and c = c])
    show "\<And>g st ch p s r s'. P s \<Longrightarrow> notify_page w c g st ch p s = (r, s') \<Longrightarrow> P s'"
      by (rule step)
    show "\<And>s g. lastSentContent s g = None \<Longrightarrow> P s
            \<Longrightarrow> P (s\<lparr>lastSentContent := (lastSentContent s)(g \<mapsto> Map.empty)\<rparr>)"
      by (rule init)
    show "P t" by fact
    show "notify_guild w c x t = (q, t')" by fact
  qed
  from for_each_invariant [where P = P, OF _ p loop] guild show ?thesis by blast
qed



section \<open>Unchanged content, empty content\<close>






text \<open>
  Claim C7. A pair whose cached text is the empty string gets no update in a pass, and
  its snapshot in the registry stays what it was (absent, empty or any text), however the
  pass ends.
\<close>

theorem C7_empty_content_is_no_change:
  assumes empty: "readDropdownCache w c p = Inr []"
    and pass: "runNotificationJob w c gs s = (r, s')"
  shows "deliveries g p s' = deliveries g p s
       \<and> ledger_get (lastSentContent s') g p = ledger_get (lastSentContent s) g p"
proof -
  let ?P = "\<lambda>t. deliveries g p t = deliveries g p s
                \<and> ledger_get (lastSentContent t) g p = ledger_get (lastSentContent s) g p"
  have "?P s'"
  proof (rule job_invariant [where P = ?P and w = w and c = c, OF _ _ _ pass])
    show "?P s" by simp
  next
    fix t g'
    assume "lastSentContent t g' = None" "?P t"
    then show "?P (t\<lparr>lastSentContent := (lastSentContent t)(g' \<mapsto> Map.empty)\<rparr>)"
      by (simp add: ledger_get_init deliveries_def)
  next
    fix g' st ch p' t q t'
    assume pt: "?P t" and step: "notify_page w c g' st ch p' t = (q, t')"
    show "?P t'"
    proof (cases "g' = g \<and> p' = p")
      case True
      with empty have "notify_page w c g' st ch p' t = (None, t)"
        by (simp add: notify_page_quiet)
      with step pt show ?thesis by simp
    next
      case False
      with notify_page_other [OF step, of g p] pt show ?thesis by auto
    qed
  qed
  then show ?thesis .
qed

text \<open>The claim at work: the cache has no text for \<^verbatim>\<open>Menu\<close>; guild \<^verbatim>\<open>g1\<close>, sent \<^verbatim>\<open>stew\<close>
  before, gets nothing and keeps \<^verbatim>\<open>stew\<close> as its snapshot.\<close>

theorem C7_empty_content_is_no_change_witness:
  "readDropdownCache ex_world Map.empty ''Menu'' = Inr []
   \<and> deliveries ''g1'' ''Menu''
        (snd (runNotificationJob ex_world Map.empty [(''g1'', ex_settings)] ex_sent_before)) = 0
   \<and> ledger_get (lastSentContent
        (snd (runNotificationJob ex_world Map.empty [(''g1'', ex_settings)] ex_sent_before)))
        ''g1'' ''Menu'' = Some ''stew''"
proof -
  let ?run = "runNotificationJob ex_world Map.empty [(''g1'', ex_settings)] ex_sent_before"
  have h1: "readDropdownCache ex_world Map.empty ''Menu'' = Inr []" by code_simp
  have h2: "?run = (fst ?run, snd ?run)" by simp
  have h3: "deliveries ''g1'' ''Menu'' ex_sent_before = 0" by code_simp
  have h4: "ledger_get (lastSentContent ex_sent_before) ''g1'' ''Menu'' = Some ''stew''"
    by code_simp
  from C7_empty_content_is_no_change [OF h1 h2, of "''g1''"] h3 h4
  have "deliveries ''g1'' ''Menu'' (snd ?run) = 0"
    "ledger_get (lastSentContent (snd ?run)) ''g1'' ''Menu'' = Some ''stew''"
    by simp_all
  with h1 show ?thesis by blast
qed

section \<open>A delivery that fails\<close>

text \<open>Nothing in the job catches a rejected send. The page step passes the rejection on
  with the snapshot of its pair as it was; the loops over the pages and over the guilds
  stop there.\<close>

lemma failed_delivery_keeps_snapshot:
  assumes "notify_page w c g st ch p s = (Some DeliveryError, s')"
  shows "ledger_get (lastSentContent s') g p = ledger_get (lastSentContent s) g p"
  using assms
proof (cases rule: notify_page_cases)
  case (read_failed e)
  then show ?thesis by simp
next
  case (quiet content)
  then show ?thesis by simp
next
  case (send_failed content e)
  from send_all_frame [OF send_failed(4)] show ?thesis by simp
next
  case (save_failed content e s1)
  from save_failed(5,6) show ?thesis
    by (auto simp: saveLastSentContent_def split: if_splits)
next
  case (sent content s1 s2)
  then show ?thesis by simp
qed

lemma failed_guild_ends_pass:
  "notify_guild w c entry s = (Some e, s') \<Longrightarrow>
   runNotificationJob w c (entry # later) s = (Some e, s')"
  by (simp add: runNotificationJob_def)

text \<open>
  Claim C2, at a failing input. Guilds \<^verbatim>\<open>g1\<close> and \<^verbatim>\<open>g2\<close> both watch \<^verbatim>\<open>Menu\<close>, neither has
  been sent its text, and the first send of the pass is rejected. The claim has the
  failure caught for the pair (\<^verbatim>\<open>g1\<close>, \<^verbatim>\<open>Menu\<close>) and the pass go on to \<^verbatim>\<open>g2\<close>. In the code
  the job itself is rejected: the snapshot of \<^verbatim>\<open>g1\<close> is not written, as claimed, but \<^verbatim>\<open>g2\<close>
  is never visited, so it gets no update and no snapshot in this pass.
\<close>

theorem C2_failed_send_ends_the_pass:
  "fst (runNotificationJob (ex_world\<lparr>send_fails := (\<lambda>n. n = 0)\<rparr>) ex_cache
         [(''g1'', ex_settings), (''g2'', ex_settings)] ex_start) = Some DeliveryError
   \<and> ledger_get (lastSentContent
        (snd (runNotificationJob (ex_world\<lparr>send_fails := (\<lambda>n. n = 0)\<rparr>) ex_cache
               [(''g1'', ex_settings), (''g2'', ex_settings)] ex_start))) ''g1'' ''Menu'' = None
   \<and> deliveries ''g2'' ''Menu''
        (snd (runNotificationJob (ex_world\<lparr>send_fails := (\<lambda>n. n = 0)\<rparr>) ex_cache
               [(''g1'', ex_settings), (''g2'', ex_settings)] ex_start)) = 0
   \<and> ledger_get (lastSentContent
        (snd (runNotificationJob (ex_world\<lparr>send_fails := (\<lambda>n. n = 0)\<rparr>) ex_cache
               [(''g1'', ex_settings), (''g2'', ex_settings)] ex_start))) ''g2'' ''Menu'' = None
   \<and> deliveries ''g2'' ''Menu''
        (snd (runNotificationJob ex_world ex_cache
               [(''g1'', ex_settings), (''g2'', ex_settings)] ex_start)) = 1"
  by code_simp

section \<open>The guard of the scheduler\<close>

lemma job_runs_lines: "job_runs sc = scheduler_lines (job_state sc)"
  by (simp add: job_runs_def)

text \<open>The job writes none of the scheduler's lines.\<close>

lemma notify_page_scheduler_lines:
  assumes "notify_page w c g st ch p s = (r, s')"
  shows "scheduler_lines s' = scheduler_lines s"
  using assms
proof (cases rule: notify_page_cases)
  case (read_failed e)
  then show ?thesis by (simp add: scheduler_lines_def)
next
  case (quiet content)
  then show ?thesis by simp
next
  case (send_failed content e)
  from send_all_frame [OF send_failed(4)] show ?thesis by (simp add: scheduler_lines_def)
next
  case (save_failed content e s1)
  from send_all_frame [OF save_failed(4)] saveLastSentContent_frame [OF save_failed(5)]
  show ?thesis by (simp add: scheduler_lines_def)
next
  case (sent content s1 s2)
  from send_all_frame [OF sent(4)] saveLastSentContent_frame [OF sent(5)] sent(7)
  show ?thesis by (simp add: scheduler_lines_def)
qed

lemma job_scheduler_lines:
  assumes "runNotificationJob w c gs s = (r, s')"
  shows "scheduler_lines s' = scheduler_lines s"
proof -
  let ?P = "\<lambda>t. scheduler_lines t = scheduler_lines s"
  have "?P s'"
  proof (rule job_invariant [where P = ?P and w = w and c = c, OF _ _ _ assms])
    show "?P s" by simp
  next
    fix t g
    assume "?P t"
    then show "?P (t\<lparr>lastSentContent := (lastSentContent t)(g \<mapsto> Map.empty)\<rparr>)"
      by (simp add: scheduler_lines_def)
  next
    fix g st ch p t q t'
    assume "?P t" "notify_page w c g st ch p t = (q, t')"
    then show "?P t'" using notify_page_scheduler_lines [of w c g st ch p t q t'] by simp
  qed
  then show ?thesis .
qed

text \<open>One run of the check either leaves everything as it is, or starts the job once;
  and when the job completes, the guard holds the minute.\<close>

lemma check_step:
  assumes "notificationScheduler w c gs h m sc = (r, sc')"
  shows "(r = None \<and> sc' = sc)
       \<or> (lastMinuteChecked sc \<noteq> Some (h * 60 + m) \<and> job_runs sc' = Suc (job_runs sc)
            \<and> (r = None \<longrightarrow> lastMinuteChecked sc' = Some (h * 60 + m)))"
proof (cases "allowed_loop (h * 60 + m) (15 * 60 + 33) \<and> lastMinuteChecked sc \<noteq> Some (h * 60 + m)")
  case False
  with assms show ?thesis by (auto simp: notificationScheduler_def Let_def)
next
  case True
  let ?s0 = "(job_state sc)\<lparr>console := console (job_state sc) @ [SchedulerRunning h m]\<rparr>"
  obtain r1 s1 where job: "runNotificationJob w c gs ?s0 = (r1, s1)"
    by (cases "runNotificationJob w c gs ?s0")
  have "scheduler_lines ?s0 = Suc (scheduler_lines (job_state sc))"
    by (simp add: scheduler_lines_def)
  with job_scheduler_lines [OF job] have lines: "scheduler_lines s1 = Suc (job_runs sc)"
    by (simp add: job_runs_lines)
  show ?thesis
  proof (cases r1)
    case None
    with True job assms
    have "r = None" "sc' = sc\<lparr>job_state := s1, lastMinuteChecked := Some (h * 60 + m)\<rparr>"
      by (simp_all add: notificationScheduler_def Let_def)
    with True lines show ?thesis by (simp add: job_runs_lines)
  next
    case (Some e)
    with True job assms have "r = Some e" "sc' = sc\<lparr>job_state := s1\<rparr>"
      by (simp_all add: notificationScheduler_def Let_def)
    with True lines show ?thesis by (simp add: job_runs_lines)
  qed
qed

text \<open>With the guard on the minute, a check in that minute does nothing.\<close>

lemma guarded_check:
  "lastMinuteChecked sc = Some (h * 60 + m) \<Longrightarrow>
   notificationScheduler w c gs h m sc = (None, sc)"
  by (simp add: notificationScheduler_def Let_def)

lemma guarded_ticks:
  assumes "list_all (\<lambda>t. tick_hour t = h \<and> tick_minute t = m) ticks"
    and "lastMinuteChecked sc = Some (h * 60 + m)"
  shows "scheduler_ticks ticks sc = (None, sc)"
  using assms
  by (induction ticks) (simp_all add: scheduler_ticks_def guarded_check)

text \<open>
  Claim C4. However often the check runs while the clock reads one minute, the job is
  started at most once: the checks that follow the one that ran the job find the guard on
  that minute. (A job that is rejected leaves the guard unset, but then the check does not
  arm its timer again, and no further check runs.)
\<close>

theorem C4_one_run_per_minute:
  assumes same_minute: "list_all (\<lambda>t. tick_hour t = h \<and> tick_minute t = m) ticks"
    and run: "scheduler_ticks ticks sc = (r, sc')"
  shows "job_runs sc' \<le> Suc (job_runs sc)"
  using assms
proof (induction ticks arbitrary: sc)
  case Nil
  then show ?case by (simp add: scheduler_ticks_def)
next
  case (Cons t ticks)
  let ?check = "notificationScheduler (tick_world t) (tick_cache t) (tick_settings t) h m sc"
  obtain r1 sc1 where step: "?check = (r1, sc1)" by (cases ?check)
  from Cons.prems(1) have hm: "tick_hour t = h" "tick_minute t = m"
    and rest: "list_all (\<lambda>t. tick_hour t = h \<and> tick_minute t = m) ticks" by simp_all
  show ?case
  proof (cases r1)
    case (Some e)
    with step hm Cons.prems(2) have "sc' = sc1" by (simp add: scheduler_ticks_def)
    with check_step [OF step] Some show ?thesis by auto
  next
    case None
    with step hm Cons.prems(2) have later: "scheduler_ticks ticks sc1 = (r, sc')"
      by (simp add: scheduler_ticks_def)
    from check_step [OF step] None
    consider (idle) "sc1 = sc"
      | (ran) "job_runs sc1 = Suc (job_runs sc)" "lastMinuteChecked sc1 = Some (h * 60 + m)"
      by auto
    then show ?thesis
    proof cases
      case idle
      with Cons.IH [OF rest] later show ?thesis by simp
    next
      case ran
      from guarded_ticks [OF rest ran(2)] later have "sc' = sc1" by simp
      with ran(1) show ?thesis by simp
    qed
  qed
qed

text \<open>The claim at work: three checks at 15:33, guild \<^verbatim>\<open>g1\<close> owed the text of \<^verbatim>\<open>Menu\<close>. The
  job runs once and the guild gets one update.\<close>

theorem C4_one_run_per_minute_witness:
  "list_all (\<lambda>t. tick_hour t = 15 \<and> tick_minute t = 33) [ex_tick, ex_tick, ex_tick]
   \<and> job_runs (snd (scheduler_ticks [ex_tick, ex_tick, ex_tick] ex_scheduler)) = 1
   \<and> job_runs (snd (scheduler_ticks [ex_tick, ex_tick, ex_tick] ex_scheduler))
       \<le> Suc (job_runs ex_scheduler)
   \<and> deliveries ''g1'' ''Menu''
       (job_state (snd (scheduler_ticks [ex_tick, ex_tick, ex_tick] ex_scheduler))) = 1"
proof -
  let ?run = "scheduler_ticks [ex_tick, ex_tick, ex_tick] ex_scheduler"
  have h1: "list_all (\<lambda>t. tick_hour t = 15 \<and> tick_minute t = 33) [ex_tick, ex_tick, ex_tick]"
    by (simp add: ex_tick_def)
  have h2: "?run = (fst ?run, snd ?run)" by simp
  have h3: "job_runs (snd ?run) = 1" by code_simp
  have h4: "deliveries ''g1'' ''Menu'' (job_state (snd ?run)) = 1" by code_simp
  from C4_one_run_per_minute [OF h1 h2] have "job_runs (snd ?run) \<le> Suc (job_runs ex_scheduler)" .
  with h1 h3 h4 show ?thesis by blast
qed


end
